theory Spec2Isabelle
  imports Main
begin

section \<open>Data model\<close>

text \<open>
  The two tables of the schema. A row of \<^verbatim>\<open>users\<close> carries the columns the
  server reads (\<^verbatim>\<open>id\<close> is written \<open>uid\<close>); a row of \<^verbatim>\<open>github_counter\<close>
  is the counter of one user on one date (\<^verbatim>\<open>id\<close> is written \<open>cid\<close>). Nullable columns
  are options. Dates are \<^verbatim>\<open>YYYY-MM-DD\<close> strings and times of day \<^verbatim>\<open>HH:MM\<close> strings, as the
  server computes them.
\<close>

record user =
  uid :: int
  github_id :: int
  push_goal :: int
  discord_webhook_url :: "string option"
  annoy_time :: "string option"

record counter =
  cid :: int
  user_id :: int
  date :: string
  push_counter :: int
  is_job_done :: bool

record store =
  users :: "user list"
  github_counter :: "counter list"

text \<open>
  What the collaborators do on one run. For a sweep: whether the users query and the
  counters query return an error, whether the update of a counter row (by its id) returns
  an error, and whether the HTTP post for the user at a position of the batch is rejected.
  For the webhook handler: whether the user lookup and the call of the stored procedure
  return an error.
\<close>

record faults =
  users_query_fails :: bool
  counters_query_fails :: bool
  update_fails :: "int \<Rightarrow> bool"
  post_rejects :: "nat \<Rightarrow> bool"
  lookup_fails :: bool
  rpc_fails :: bool

definition no_faults :: faults where
  "no_faults = \<lparr>users_query_fails = False, counters_query_fails = False,
     update_fails = (\<lambda>_. False), post_rejects = (\<lambda>_. False),
     lookup_fails = False, rpc_fails = False\<rparr>"

text \<open>
  The two message bodies of the sweep: the congratulation and the reminder
  (\<^verbatim>\<open>'push kar bc'\<close>).
\<close>

datatype message = Congratulations | Reminder

text \<open>
  The effects of a sweep, in the order the code awaits them: the update that sets
  \<^verbatim>\<open>is_job_done\<close> on the counter row with the given id, and the HTTP post of a message
  body to a webhook URL (tagged with the id of the user it is for).
\<close>

datatype event = SetJobDone int | Post int "string option" message

text \<open>
  How a sweep ends: it returns early (query error or nobody to notify), it runs the loop to
  its end, or its promise is rejected while the batch position given is being processed.
\<close>

datatype outcome = Returned | Completed | Rejected nat

section \<open>The sweep \<^verbatim>\<open>checkPushGoals\<close>\<close>

text \<open>Comparison of two strings by character code, as on zero-padded times of day.\<close>

fun str_le :: "string \<Rightarrow> string \<Rightarrow> bool" where
  "str_le [] bs = True"
| "str_le (a # as) [] = False"
| "str_le (a # as) (b # bs) =
     ((of_char a :: nat) < of_char b \<or> (a = b \<and> str_le as bs))"

text \<open>
  The users query: webhook URL not null, \<^verbatim>\<open>annoy_time\<close> not null and
  \<^verbatim>\<open>annoy_time <= now\<close>.
\<close>

definition is_due :: "string \<Rightarrow> user \<Rightarrow> bool" where
  "is_due now u =
     (discord_webhook_url u \<noteq> None \<and>
      (case annoy_time u of None \<Rightarrow> False | Some t \<Rightarrow> str_le t now))"

definition due_users :: "string \<Rightarrow> user list \<Rightarrow> user list" where
  "due_users now us = filter (is_due now) us"

text \<open>The counters query: rows of today whose user is in the batch.\<close>

definition todays_counters :: "string \<Rightarrow> int list \<Rightarrow> counter list \<Rightarrow> counter list" where
  "todays_counters today ids cs =
     filter (\<lambda>c. date c = today \<and> user_id c \<in> set ids) cs"

text \<open>
  \<^verbatim>\<open>new Map(counters?.map(c => [c.user_id, c]))\<close>: a later entry of the array replaces
  an earlier one with the same key, so the lookup finds the last row of a user.
\<close>

definition counterMap :: "counter list \<Rightarrow> (int \<rightharpoonup> counter)" where
  "counterMap counters = map_of (rev (map (\<lambda>c. (user_id c, c)) counters))"

text \<open>
  \<^verbatim>\<open>update({is_job_done: true}).eq('id', k)\<close>; the code does not read the error the
  update returns, so a failed update changes nothing and the loop goes on.
\<close>

definition set_job_done :: "faults \<Rightarrow> int \<Rightarrow> counter list \<Rightarrow> counter list" where
  "set_job_done f k cs =
     (if update_fails f k then cs
      else map (\<lambda>c. if cid c = k then c\<lparr>is_job_done := True\<rparr> else c) cs)"

text \<open>
  \<^verbatim>\<open>pushCount = counter?.push_counter || 0; goalMet = pushCount >= user.push_goal\<close>.
\<close>

definition goalMet :: "counter option \<Rightarrow> user \<Rightarrow> bool" where
  "goalMet counter u =
     (push_goal u \<le> (case counter of None \<Rightarrow> 0 | Some c \<Rightarrow> push_counter c))"

text \<open>
  The body of the loop for the user at position \<open>i\<close> of the batch: the counter rows after
  it, the effects it awaited, and whether the post was rejected (a URL that is null cannot
  be posted to).
\<close>

definition process_user ::
  "faults \<Rightarrow> (int \<rightharpoonup> counter) \<Rightarrow> nat \<Rightarrow> user \<Rightarrow> counter list
     \<Rightarrow> counter list \<times> event list \<times> bool" where
  "process_user f cm i u cs =
     (let counter = cm (uid u) in
      if (case counter of None \<Rightarrow> False | Some c \<Rightarrow> is_job_done c) then (cs, [], False)
      else
        let gm = goalMet counter u;
            wr = (case counter of
                    None \<Rightarrow> (cs, [])
                  | Some c \<Rightarrow>
                      if gm then (set_job_done f (cid c) cs, [SetJobDone (cid c)])
                      else (cs, []))
        in (fst wr,
            snd wr @ [Post (uid u) (discord_webhook_url u)
                        (if gm then Congratulations else Reminder)],
            post_rejects f i \<or> discord_webhook_url u = None))"

text \<open>
  \<^verbatim>\<open>for (const user of users) { ... await axios.post(...) }\<close>: the post is awaited with
  no handler around it, so a rejected post ends the loop and rejects the sweep.
\<close>

fun sweep_loop ::
  "faults \<Rightarrow> (int \<rightharpoonup> counter) \<Rightarrow> nat \<Rightarrow> user list \<Rightarrow> counter list
     \<Rightarrow> counter list \<times> event list \<times> outcome" where
  "sweep_loop f cm i [] cs = (cs, [], Completed)"
| "sweep_loop f cm i (u # us) cs =
     (case process_user f cm i u cs of
        (cs', evs, rejected) \<Rightarrow>
          if rejected then (cs', evs, Rejected i)
          else (case sweep_loop f cm (Suc i) us cs' of
                  (cs'', tr, out) \<Rightarrow> (cs'', evs @ tr, out)))"

text \<open>
  The sweep at date \<open>today\<close> and time \<open>now\<close>. An error of the users query, or an empty
  batch, returns. The error of the counters query is not read: its data is then null and
  the map is empty.
\<close>

definition checkPushGoals ::
  "faults \<Rightarrow> string \<Rightarrow> string \<Rightarrow> store \<Rightarrow> store \<times> event list \<times> outcome" where
  "checkPushGoals f today now s =
     (if users_query_fails f then (s, [], Returned)
      else
        let batch = due_users now (users s) in
        if batch = [] then (s, [], Returned)
        else
          let counters = (if counters_query_fails f then []
                          else todays_counters today (map uid batch) (github_counter s));
              r = sweep_loop f (counterMap counters) 0 batch (github_counter s)
          in (s\<lparr>github_counter := fst r\<rparr>, fst (snd r), snd (snd r)))"

section \<open>The other sweep: the callback given inline to \<^verbatim>\<open>cron.schedule\<close>\<close>

text \<open>
  One server file schedules an inline callback instead. It selects the counter rows of today
  with \<^verbatim>\<open>is_job_done = false\<close>, each with its user embedded (\<^verbatim>\<open>item.users\<close>), and
  returns when the query fails (\<open>counters_query_fails\<close>) or finds nothing.
\<close>

definition pending_items :: "string \<Rightarrow> store \<Rightarrow> (counter \<times> user option) list" where
  "pending_items today s =
     map (\<lambda>c. (c, find (\<lambda>u. uid u = user_id c) (users s)))
       (filter (\<lambda>c. date c = today \<and> \<not> is_job_done c) (github_counter s))"

text \<open>
  The body of its loop. Goal reached: update the row, then post the congratulation;
  otherwise post the reminder when \<^verbatim>\<open>now >= item.users.annoy_time\<close>, which is false
  for a null time. Reading \<^verbatim>\<open>item.users.push_goal\<close> of a missing user throws.
\<close>

definition process_item ::
  "faults \<Rightarrow> string \<Rightarrow> nat \<Rightarrow> counter \<times> user option \<Rightarrow> counter list
     \<Rightarrow> counter list \<times> event list \<times> bool" where
  "process_item f now i item cs =
     (case snd item of
        None \<Rightarrow> (cs, [], True)
      | Some u \<Rightarrow>
          if push_goal u \<le> push_counter (fst item) then
            (set_job_done f (cid (fst item)) cs,
             [SetJobDone (cid (fst item)),
              Post (uid u) (discord_webhook_url u) Congratulations],
             post_rejects f i \<or> discord_webhook_url u = None)
          else if (case annoy_time u of None \<Rightarrow> False | Some t \<Rightarrow> str_le t now) then
            (cs, [Post (uid u) (discord_webhook_url u) Reminder],
             post_rejects f i \<or> discord_webhook_url u = None)
          else (cs, [], False))"

fun cron_loop ::
  "faults \<Rightarrow> string \<Rightarrow> nat \<Rightarrow> (counter \<times> user option) list \<Rightarrow> counter list
     \<Rightarrow> counter list \<times> event list \<times> outcome" where
  "cron_loop f now i [] cs = (cs, [], Completed)"
| "cron_loop f now i (item # items) cs =
     (case process_item f now i item cs of
        (cs', evs, rejected) \<Rightarrow>
          if rejected then (cs', evs, Rejected i)
          else (case cron_loop f now (Suc i) items cs' of
                  (cs'', tr, out) \<Rightarrow> (cs'', evs @ tr, out)))"

definition cron_callback ::
  "faults \<Rightarrow> string \<Rightarrow> string \<Rightarrow> store \<Rightarrow> store \<times> event list \<times> outcome" where
  "cron_callback f today now s =
     (if counters_query_fails f then (s, [], Returned)
      else
        let userCronCheck = pending_items today s in
        if userCronCheck = [] then (s, [], Returned)
        else
          let r = cron_loop f now 0 userCronCheck (github_counter s)
          in (s\<lparr>github_counter := fst r\<rparr>, fst (snd r), snd (snd r)))"

section \<open>The webhook handler \<^verbatim>\<open>POST /api/gitwebhook\<close>\<close>

text \<open>
  A request is its \<^verbatim>\<open>X-Hub-Signature-256\<close> header (absent or a string) and its raw
  body, which \<^verbatim>\<open>express.raw\<close> hands over as a buffer for the JSON content type. The
  handler either sends a status or throws.
\<close>

record request =
  signature_header :: "string option"
  body :: string

datatype js_error = TypeError | RangeError | SyntaxError

datatype reply = Threw js_error | Status nat

text \<open>
  What \<^verbatim>\<open>JSON.parse(request.body.toString())\<close> followed by \<^verbatim>\<open>pushEvent.sender.id\<close>
  gives: a syntax error, no \<^verbatim>\<open>sender\<close> object to read \<^verbatim>\<open>id\<close> from, or the id (an
  integer, or something no \<^verbatim>\<open>github_id\<close> can equal).
\<close>

datatype payload = Malformed | NoSender | Sender "int option"

text \<open>
  \<^verbatim>\<open>Buffer.from(string)\<close> encodes in UTF-8: a character below 128 is one byte, one of
  128 to 255 is two.
\<close>

definition utf8_char :: "char \<Rightarrow> char list" where
  "utf8_char c =
     (if (of_char c :: nat) < 128 then [c]
      else [char_of (192 + (of_char c :: nat) div 64), char_of (128 + (of_char c :: nat) mod 64)])"

definition Buffer_from :: "string \<Rightarrow> char list" where
  "Buffer_from s = concat (map utf8_char s)"

text \<open>\<^verbatim>\<open>crypto.timingSafeEqual\<close> throws a range error on buffers of different byte length.\<close>

definition timingSafeEqual :: "char list \<Rightarrow> char list \<Rightarrow> js_error + bool" where
  "timingSafeEqual a b = (if length a \<noteq> length b then Inl RangeError else Inr (a = b))"

text \<open>
  \<^verbatim>\<open>from('users').select('id').eq('github_id', g).single()\<close>: data only when exactly
  one row matches and the query does not fail.
\<close>

definition single_user :: "faults \<Rightarrow> int option \<Rightarrow> user list \<Rightarrow> user option" where
  "single_user f g us =
     (if lookup_fails f then None
      else case g of
             None \<Rightarrow> None
           | Some n \<Rightarrow> (case filter (\<lambda>u. github_id u = n) us of [u] \<Rightarrow> Some u | _ \<Rightarrow> None))"

text \<open>The next value of the id sequence of \<^verbatim>\<open>github_counter\<close>.\<close>

definition next_id :: "counter list \<Rightarrow> int" where
  "next_id cs = 1 + fold max (map cid cs) 0"

text \<open>
  Modelled from the spec: the stored procedure \<^verbatim>\<open>increment_push_counter\<close>, which the
  handler calls and the repository's files do not define. In one atomic store operation it
  increments \<^verbatim>\<open>push_count\<close> by 1 if a row exists for the user today, else creates the row
  with \<^verbatim>\<open>push_count = 1\<close> and \<^verbatim>\<open>is_job_done\<close> false by default.
\<close>

definition increment_push_counter :: "int \<Rightarrow> string \<Rightarrow> counter list \<Rightarrow> counter list" where
  "increment_push_counter user_id_in today cs =
     (if list_ex (\<lambda>c. user_id c = user_id_in \<and> date c = today) cs then
        map (\<lambda>c. if user_id c = user_id_in \<and> date c = today
                  then c\<lparr>push_counter := push_counter c + 1\<rparr> else c) cs
      else cs @ [\<lparr>cid = next_id cs, user_id = user_id_in, date = today,
                   push_counter = 1, is_job_done = False\<rparr>])"

text \<open>
  The handler up to its first store access and through it: the signature check, the parse
  and the user lookup. \<open>hmac_hex key body\<close> stands for the hex digest of
  \<^verbatim>\<open>crypto.createHmac('sha256', key)\<close> over the body and \<open>parse\<close> for the JSON parser;
  \<open>secret\<close> is \<^verbatim>\<open>process.env.GITWEBHOOK_SECRET\<close>, which \<^verbatim>\<open>createHmac\<close> needs defined.
  Nothing here writes to the store.
\<close>

definition verify_and_find ::
  "(string \<Rightarrow> string \<Rightarrow> string) \<Rightarrow> (string \<Rightarrow> payload) \<Rightarrow> faults \<Rightarrow> string option
     \<Rightarrow> request \<Rightarrow> store \<Rightarrow> reply + user" where
  "verify_and_find hmac_hex parse f secret req s =
     (case secret of
        None \<Rightarrow> Inl (Threw TypeError)
      | Some key \<Rightarrow>
          let ourSignature = ''sha256='' @ hmac_hex key (body req) in
          (case signature_header req of
             None \<Rightarrow> Inl (Threw TypeError)
           | Some githubSignature \<Rightarrow>
               (case timingSafeEqual (Buffer_from ourSignature) (Buffer_from githubSignature) of
                  Inl e \<Rightarrow> Inl (Threw e)
                | Inr equal \<Rightarrow>
                    if \<not> equal then Inl (Status 401)
                    else
                      (case parse (body req) of
                         Malformed \<Rightarrow> Inl (Threw SyntaxError)
                       | NoSender \<Rightarrow> Inl (Threw TypeError)
                       | Sender g \<Rightarrow>
                           (case single_user f g (users s) of
                              None \<Rightarrow> Inl (Status 404)
                            | Some pushData \<Rightarrow> Inr pushData)))))"

text \<open>The rest of the handler: the call of the stored procedure and the reply.\<close>

definition upsert_counter :: "faults \<Rightarrow> string \<Rightarrow> user \<Rightarrow> store \<Rightarrow> store \<times> reply" where
  "upsert_counter f today pushData s =
     (if rpc_fails f then (s, Status 500)
      else (s\<lparr>github_counter :=
                increment_push_counter (uid pushData) today (github_counter s)\<rparr>,
            Status 200))"

definition gitwebhook ::
  "(string \<Rightarrow> string \<Rightarrow> string) \<Rightarrow> (string \<Rightarrow> payload) \<Rightarrow> faults \<Rightarrow> string option
     \<Rightarrow> string \<Rightarrow> request \<Rightarrow> store \<Rightarrow> store \<times> reply" where
  "gitwebhook hmac_hex parse f secret today req s =
     (case verify_and_find hmac_hex parse f secret req s of
        Inl r \<Rightarrow> (s, r)
      | Inr pushData \<Rightarrow> upsert_counter f today pushData s)"

section \<open>Concurrent deliveries of the webhook\<close>

text \<open>
  A delivery in flight has either just arrived, or found its user and not yet called the
  stored procedure, or replied. Each store access of the handler is one step; a schedule
  names, step by step, which delivery moves next, so the steps of different deliveries
  interleave in any order.
\<close>

datatype phase = Arrived | Found user | Replied reply

definition handler_step ::
  "(string \<Rightarrow> string \<Rightarrow> string) \<Rightarrow> (string \<Rightarrow> payload) \<Rightarrow> faults \<Rightarrow> string option
     \<Rightarrow> string \<Rightarrow> request \<Rightarrow> phase \<Rightarrow> store \<Rightarrow> phase \<times> store" where
  "handler_step hmac_hex parse f secret today req p s =
     (case p of
        Arrived \<Rightarrow>
          (case verify_and_find hmac_hex parse f secret req s of
             Inl r \<Rightarrow> (Replied r, s)
           | Inr pushData \<Rightarrow> (Found pushData, s))
      | Found pushData \<Rightarrow>
          (case upsert_counter f today pushData s of (s', r) \<Rightarrow> (Replied r, s'))
      | Replied r \<Rightarrow> (Replied r, s))"

fun interleave ::
  "(string \<Rightarrow> string \<Rightarrow> string) \<Rightarrow> (string \<Rightarrow> payload) \<Rightarrow> faults \<Rightarrow> string option
     \<Rightarrow> string \<Rightarrow> request list \<Rightarrow> nat list \<Rightarrow> phase list \<times> store \<Rightarrow> phase list \<times> store" where
  "interleave hmac_hex parse f secret today reqs [] st = st"
| "interleave hmac_hex parse f secret today reqs (i # sched) (ps, s) =
     (if i < length ps \<and> i < length reqs then
        (case handler_step hmac_hex parse f secret today (reqs ! i) (ps ! i) s of
           (p', s') \<Rightarrow> interleave hmac_hex parse f secret today reqs sched (ps[i := p'], s'))
      else interleave hmac_hex parse f secret today reqs sched (ps, s))"

definition has_replied :: "phase \<Rightarrow> bool" where
  "has_replied p = (case p of Replied r \<Rightarrow> True | _ \<Rightarrow> False)"

section \<open>Notions used in the statements\<close>

text \<open>The schema's \<^verbatim>\<open>CHECK (push_goal > 0)\<close> and \<^verbatim>\<open>UNIQUE (user_id, date)\<close>.\<close>

definition push_goals_positive :: "user list \<Rightarrow> bool" where
  "push_goals_positive us = list_all (\<lambda>u. 1 \<le> push_goal u) us"

definition one_row_per_day :: "counter list \<Rightarrow> bool" where
  "one_row_per_day cs = distinct (map (\<lambda>c. (user_id c, date c)) cs)"

text \<open>The counter rows of a user on a date, and the pushes they record.\<close>

definition rows_of :: "int \<Rightarrow> string \<Rightarrow> counter list \<Rightarrow> counter list" where
  "rows_of u d cs = filter (\<lambda>c. user_id c = u \<and> date c = d) cs"

definition push_count :: "int \<Rightarrow> string \<Rightarrow> store \<Rightarrow> int" where
  "push_count u d s = sum_list (map push_counter (rows_of u d (github_counter s)))"

text \<open>The user has a counter row on the date and the flag is set on it.\<close>

definition job_done_for :: "int \<Rightarrow> string \<Rightarrow> store \<Rightarrow> bool" where
  "job_done_for u d s =
     (rows_of u d (github_counter s) \<noteq> [] \<and>
      list_all is_job_done (rows_of u d (github_counter s)))"

text \<open>
  The rows after the updates of a sweep: the flag set on the rows whose id is in \<open>K\<close>;
  and the ids whose update, among the effects \<open>tr\<close>, the store accepted.
\<close>

definition mark_done :: "int set \<Rightarrow> counter list \<Rightarrow> counter list" where
  "mark_done K cs = map (\<lambda>c. if cid c \<in> K then c\<lparr>is_job_done := True\<rparr> else c) cs"

definition acknowledged :: "faults \<Rightarrow> event list \<Rightarrow> int set" where
  "acknowledged f tr = {k. SetJobDone k \<in> set tr \<and> \<not> update_fails f k}"

section \<open>Example data\<close>

definition alice :: user where
  "alice = \<lparr>uid = 1, github_id = 101, push_goal = 1,
     discord_webhook_url = Some ''https://discord.example/a'', annoy_time = Some ''08:00''\<rparr>"

definition bob :: user where
  "bob = \<lparr>uid = 2, github_id = 102, push_goal = 3,
     discord_webhook_url = Some ''https://discord.example/b'', annoy_time = Some ''09:00''\<rparr>"

text \<open>A user who has a webhook URL and has not set a notification time.\<close>

definition carol :: user where
  "carol = \<lparr>uid = 3, github_id = 103, push_goal = 1,
     discord_webhook_url = Some ''https://discord.example/c'', annoy_time = None\<rparr>"

definition first_post_rejected :: faults where
  "first_post_rejected = no_faults\<lparr>post_rejects := (\<lambda>i. i = 0)\<rparr>"

definition counters_query_down :: faults where
  "counters_query_down = no_faults\<lparr>counters_query_fails := True\<rparr>"

text \<open>The store answers every update with an error, and the first post is rejected.\<close>

definition update_refused_post_rejected :: faults where
  "update_refused_post_rejected =
     no_faults\<lparr>update_fails := (\<lambda>k. True), post_rejects := (\<lambda>i. i = 0)\<rparr>"

text \<open>Alice's counter row of 1 May: one push, flag as given.\<close>

definition alice_row :: "bool \<Rightarrow> counter" where
  "alice_row done = \<lparr>cid = 7, user_id = 1, date = ''2024-05-01'', push_counter = 1,
     is_job_done = done\<rparr>"

definition carol_row :: counter where
  "carol_row = \<lparr>cid = 9, user_id = 3, date = ''2024-05-01'', push_counter = 1,
     is_job_done = False\<rparr>"

text \<open>A user known by the GitHub id 999, who has not finished onboarding.\<close>

definition dave :: user where
  "dave = \<lparr>uid = 4, github_id = 999, push_goal = 2, discord_webhook_url = None,
     annoy_time = None\<rparr>"

text \<open>
  Stand-ins for the two library functions on the example requests: a digest that is 64
  hex digits whatever the input, and a parser that finds the sender id 999 in every body
  but \<^verbatim>\<open>{}\<close>.
\<close>

definition demo_hmac :: "string \<Rightarrow> string \<Rightarrow> string" where
  "demo_hmac key b = replicate 64 (CHR ''0'')"

definition demo_parse :: "string \<Rightarrow> payload" where
  "demo_parse b = (if b = ''{}'' then NoSender else Sender (Some 999))"

text \<open>A delivery signed with the stand-in digest.\<close>

definition demo_request :: request where
  "demo_request = \<lparr>signature_header = Some (''sha256='' @ replicate 64 (CHR ''0'')),
     body = ''{\"sender\":{\"id\":999}}''\<rparr>"

section \<open>Facts about the sweep\<close>

text \<open>The lookup in the map finds a row of the array, and finds one whenever the user has one.\<close>

lemma counterMap_SomeD: "counterMap cs k = Some c \<Longrightarrow> c \<in> set cs \<and> user_id c = k"
  unfolding counterMap_def by (auto dest!: map_of_SomeD)

lemma counterMap_None_iff: "counterMap cs k = None \<longleftrightarrow> (\<forall>c \<in> set cs. user_id c \<noteq> k)"
  unfolding counterMap_def by (auto simp: map_of_eq_None_iff image_iff)

text \<open>
  The counter rows after the loop are the rows before it, with the flag set on those whose
  update the store accepted.
\<close>

lemma mark_done_empty: "mark_done {} cs = cs"
  by (simp add: mark_done_def)

lemma mark_done_twice: "mark_done K (mark_done L cs) = mark_done (L \<union> K) cs"
  by (auto simp: mark_done_def)

lemma set_job_done_mark:
  "set_job_done f k cs = mark_done (acknowledged f [SetJobDone k]) cs"
proof (cases "update_fails f k")
  case True
  then have "acknowledged f [SetJobDone k] = {}" by (simp add: acknowledged_def)
  with True show ?thesis by (simp add: set_job_done_def mark_done_def)
next
  case False
  then have "acknowledged f [SetJobDone k] = {k}" by (auto simp: acknowledged_def)
  with False show ?thesis by (simp add: set_job_done_def mark_done_def)
qed

lemma acknowledged_append:
  "acknowledged f (xs @ ys) = acknowledged f xs \<union> acknowledged f ys"
  by (auto simp: acknowledged_def)

lemma process_user_store:
  "process_user f cm i u cs = (cs', evs, rej) \<Longrightarrow> cs' = mark_done (acknowledged f evs) cs"
  by (auto simp: process_user_def Let_def set_job_done_mark mark_done_empty acknowledged_def
      split: option.splits if_splits)

lemma sweep_loop_store:
  "sweep_loop f cm i us cs = (cs', tr, out) \<Longrightarrow> cs' = mark_done (acknowledged f tr) cs"
proof (induction us arbitrary: i cs cs' tr out)
  case Nil
  then show ?case by (simp add: mark_done_def acknowledged_def)
next
  case (Cons u us)
  obtain c1 evs rej where p: "process_user f cm i u cs = (c1, evs, rej)"
    by (cases "process_user f cm i u cs") auto
  have c1: "c1 = mark_done (acknowledged f evs) cs"
    using process_user_store [OF p] .
  show ?case
  proof (cases rej)
    case True
    with Cons.prems p c1 show ?thesis by auto
  next
    case False
    obtain c2 tr2 out2 where r: "sweep_loop f cm (Suc i) us c1 = (c2, tr2, out2)"
      by (cases "sweep_loop f cm (Suc i) us c1") auto
    from Cons.IH [OF r] have "c2 = mark_done (acknowledged f tr2) c1" .
    with Cons.prems p r False c1 show ?thesis
      by (auto simp: mark_done_twice acknowledged_append)
  qed
qed

text \<open>
  The body of the loop for a user whose row has reached the goal and not the flag: the
  update, then the congratulation. And the other way round: a congratulation is preceded
  by the update of the row the map holds for the user.
\<close>

lemma process_user_goal_met:
  assumes "cm (uid u) = Some c" and "\<not> is_job_done c" and "push_goal u \<le> push_counter c"
  shows "process_user f cm i u cs
           = (set_job_done f (cid c) cs,
              [SetJobDone (cid c), Post (uid u) (discord_webhook_url u) Congratulations],
              post_rejects f i \<or> discord_webhook_url u = None)"
  using assms by (simp add: process_user_def goalMet_def)

lemma process_user_congrats:
  assumes "process_user f cm i x cs = (cs', evs, rej)"
    and "1 \<le> push_goal x"
    and "Post u url Congratulations \<in> set evs"
  shows "\<exists>c. cm u = Some c \<and> uid x = u \<and> \<not> is_job_done c
            \<and> evs = [SetJobDone (cid c), Post u url Congratulations]"
  using assms
  by (auto simp: process_user_def Let_def goalMet_def split: option.splits if_splits)

lemma sweep_loop_congrats:
  assumes "sweep_loop f cm i us cs = (cs', tr, out)"
    and "\<forall>x \<in> set us. 1 \<le> push_goal x"
    and "Post u url Congratulations \<in> set tr"
  shows "\<exists>c pre post. cm u = Some c \<and> \<not> is_job_done c
            \<and> tr = pre @ SetJobDone (cid c) # Post u url Congratulations # post"
  using assms
proof (induction us arbitrary: i cs cs' tr out)
  case Nil
  then show ?case by simp
next
  case (Cons x us)
  obtain c1 evs rej where p: "process_user f cm i x cs = (c1, evs, rej)"
    by (cases "process_user f cm i x cs") auto
  have goal: "1 \<le> push_goal x" using Cons.prems(2) by simp
  show ?case
  proof (cases "Post u url Congratulations \<in> set evs")
    case True
    from process_user_congrats [OF p goal True] obtain c where
      c: "cm u = Some c" "\<not> is_job_done c" "evs = [SetJobDone (cid c), Post u url Congratulations]"
      by blast
    show ?thesis
    proof (cases rej)
      case True
      with Cons.prems(1) p have "tr = evs" by simp
      with c have "tr = [] @ SetJobDone (cid c) # Post u url Congratulations # []" by simp
      with c show ?thesis by blast
    next
      case False
      obtain c2 tr2 out2 where r: "sweep_loop f cm (Suc i) us c1 = (c2, tr2, out2)"
        by (cases "sweep_loop f cm (Suc i) us c1") auto
      with Cons.prems(1) p False have "tr = evs @ tr2" by simp
      with c have "tr = [] @ SetJobDone (cid c) # Post u url Congratulations # tr2" by simp
      with c show ?thesis by blast
    qed
  next
    case notin: False
    show ?thesis
    proof (cases rej)
      case True
      with Cons.prems(1) p have "tr = evs" by simp
      with notin Cons.prems(3) show ?thesis by simp
    next
      case False
      obtain c2 tr2 out2 where r: "sweep_loop f cm (Suc i) us c1 = (c2, tr2, out2)"
        by (cases "sweep_loop f cm (Suc i) us c1") auto
      with Cons.prems(1) p False have tr: "tr = evs @ tr2" by simp
      with notin Cons.prems(3) have "Post u url Congratulations \<in> set tr2" by simp
      from Cons.IH [OF r _ this] Cons.prems(2) obtain c pre post where
        "cm u = Some c" "\<not> is_job_done c"
        "tr2 = pre @ SetJobDone (cid c) # Post u url Congratulations # post" by auto
      with tr have "cm u = Some c \<and> \<not> is_job_done c \<and>
         tr = (evs @ pre) @ SetJobDone (cid c) # Post u url Congratulations # post" by simp
      then show ?thesis by blast
    qed
  qed
qed

text \<open>
  A sweep that has effects has run the loop on the batch of due users. With positive
  goals, each congratulation among its effects follows the update of a row the user has
  for today, with the flag unset; so a user whose rows have the flag is not congratulated.
\<close>

lemma checkPushGoals_run:
  assumes "checkPushGoals f today now s = (s', tr, out)"
    and "tr \<noteq> []"
  shows "\<not> users_query_fails f \<and>
         s' = s\<lparr>github_counter := mark_done (acknowledged f tr) (github_counter s)\<rparr> \<and>
         (\<exists>cs'. sweep_loop f
            (counterMap (if counters_query_fails f then []
               else todays_counters today (map uid (due_users now (users s))) (github_counter s)))
            0 (due_users now (users s)) (github_counter s) = (cs', tr, out))"
proof -
  let ?cm = "counterMap (if counters_query_fails f then []
               else todays_counters today (map uid (due_users now (users s))) (github_counter s))"
  obtain cs' tr' out' where r:
    "sweep_loop f ?cm 0 (due_users now (users s)) (github_counter s) = (cs', tr', out')"
    by (cases "sweep_loop f ?cm 0 (due_users now (users s)) (github_counter s)") auto
  from assms have run: "\<not> users_query_fails f" "due_users now (users s) \<noteq> []"
    by (auto simp: checkPushGoals_def Let_def split: if_splits)
  with assms(1) r have eq: "s' = s\<lparr>github_counter := cs'\<rparr>" "tr = tr'" "out = out'"
    by (auto simp: checkPushGoals_def Let_def)
  from sweep_loop_store [OF r] have "cs' = mark_done (acknowledged f tr') (github_counter s)" .
  with eq r run show ?thesis by auto
qed

lemma todays_counters_row:
  "c \<in> set (todays_counters today ids cs) \<Longrightarrow> c \<in> set cs \<and> date c = today"
  by (simp add: todays_counters_def)

lemma push_goals_positive_due:
  "push_goals_positive us \<Longrightarrow> \<forall>x \<in> set (due_users now us). 1 \<le> push_goal x"
  by (auto simp: push_goals_positive_def due_users_def list_all_iff)

lemma checkPushGoals_congrats:
  assumes run: "checkPushGoals f today now s = (s', tr, out)"
    and goals: "push_goals_positive (users s)"
    and post: "Post u url Congratulations \<in> set tr"
  shows "\<exists>c pre post. c \<in> set (github_counter s) \<and> user_id c = u \<and> date c = today
           \<and> \<not> is_job_done c
           \<and> tr = pre @ SetJobDone (cid c) # Post u url Congratulations # post"
proof -
  let ?cm = "counterMap (if counters_query_fails f then []
               else todays_counters today (map uid (due_users now (users s))) (github_counter s))"
  from post have "tr \<noteq> []" by auto
  from checkPushGoals_run [OF run this] obtain cs' where
    loop: "sweep_loop f ?cm 0 (due_users now (users s)) (github_counter s) = (cs', tr, out)"
    by blast
  from sweep_loop_congrats [OF loop push_goals_positive_due [OF goals] post]
  obtain c pre post where c: "?cm u = Some c" "\<not> is_job_done c"
    "tr = pre @ SetJobDone (cid c) # Post u url Congratulations # post" by blast
  from counterMap_SomeD [OF c(1)] have
    "c \<in> set (if counters_query_fails f then []
        else todays_counters today (map uid (due_users now (users s))) (github_counter s))"
    "user_id c = u" by auto
  then have "c \<in> set (github_counter s) \<and> date c = today \<and> user_id c = u"
    by (auto dest: todays_counters_row split: if_splits)
  with c show ?thesis by blast
qed

lemma rows_of_mark_done:
  "rows_of u d (mark_done K cs) = mark_done K (rows_of u d cs)"
  by (induction cs) (auto simp: rows_of_def mark_done_def)

lemma one_row_per_day_rows_of:
  assumes "one_row_per_day cs" and "c \<in> set cs"
  shows "rows_of (user_id c) (date c) cs = [c]"
  using assms
proof (induction cs)
  case Nil
  then show ?case by simp
next
  case (Cons a cs)
  show ?case
  proof (cases "a = c")
    case True
    from Cons.prems(1) have "(user_id c, date c) \<notin> (\<lambda>c. (user_id c, date c)) ` set cs"
      using True by (simp add: one_row_per_day_def)
    then have "filter (\<lambda>x. user_id x = user_id c \<and> date x = date c) cs = []"
      by (auto simp: filter_empty_conv image_iff)
    with True show ?thesis by (simp add: rows_of_def)
  next
    case False
    with Cons.prems have c: "c \<in> set cs" and d: "one_row_per_day cs"
      and "(user_id a, date a) \<notin> (\<lambda>c. (user_id c, date c)) ` set cs"
      by (auto simp: one_row_per_day_def)
    then have "\<not> (user_id a = user_id c \<and> date a = date c)"
      by (auto simp: image_iff)
    with Cons.IH [OF d c] show ?thesis by (auto simp: rows_of_def)
  qed
qed

lemma done_user_no_congrats:
  assumes "push_goals_positive (users s)" and "job_done_for u today s"
  shows "Post u url Congratulations \<notin> set (fst (snd (checkPushGoals f today now s)))"
proof
  assume post: "Post u url Congratulations \<in> set (fst (snd (checkPushGoals f today now s)))"
  obtain s' tr out where run: "checkPushGoals f today now s = (s', tr, out)"
    by (cases "checkPushGoals f today now s") auto
  with post have "Post u url Congratulations \<in> set tr" by simp
  from checkPushGoals_congrats [OF run assms(1) this] obtain c where
    c: "c \<in> set (github_counter s)" "user_id c = u" "date c = today" "\<not> is_job_done c"
    by blast
  then have "c \<in> set (rows_of u today (github_counter s))" by (simp add: rows_of_def)
  with assms(2) have "is_job_done c" by (simp add: job_done_for_def list_all_iff)
  with c show False by simp
qed

text \<open>
  What a whole sweep leaves in the store: the users as they were, and on the counter rows
  nothing but the flag of the rows whose update the store accepted.
\<close>

lemma checkPushGoals_store:
  assumes "checkPushGoals f today now s = (s', tr, out)"
  shows "users s' = users s \<and>
         github_counter s' = mark_done (acknowledged f tr) (github_counter s)"
proof (cases "users_query_fails f \<or> due_users now (users s) = []")
  case True
  with assms have "s' = s" "tr = []"
    unfolding checkPushGoals_def Let_def by (auto split: if_splits)
  then show ?thesis by (simp add: acknowledged_def mark_done_def)
next
  case False
  let ?cm = "counterMap (if counters_query_fails f then []
               else todays_counters today (map uid (due_users now (users s))) (github_counter s))"
  obtain cs1 tr1 out1 where
    loop: "sweep_loop f ?cm 0 (due_users now (users s)) (github_counter s) = (cs1, tr1, out1)"
    by (cases "sweep_loop f ?cm 0 (due_users now (users s)) (github_counter s)") auto
  with assms False have "s' = s\<lparr>github_counter := cs1\<rparr>" "tr = tr1"
    unfolding checkPushGoals_def Let_def by (auto split: if_splits)
  with sweep_loop_store [OF loop] show ?thesis by simp
qed

text \<open>
  A sweep that ends rejected is the same whoever stands after the rejected post in the
  batch: nothing is decided for them.
\<close>

lemma sweep_loop_rejected_ignores_rest:
  "snd (snd (sweep_loop f cm i us cs)) = Rejected k
     \<Longrightarrow> sweep_loop f cm i (us @ later) cs = sweep_loop f cm i us cs"
proof (induction us arbitrary: i cs)
  case Nil
  then show ?case by simp
next
  case (Cons x us)
  obtain c1 evs rej where p: "process_user f cm i x cs = (c1, evs, rej)"
    by (cases "process_user f cm i x cs") auto
  show ?case
  proof (cases rej)
    case True
    with p show ?thesis by simp
  next
    case False
    with Cons.prems p have "snd (snd (sweep_loop f cm (Suc i) us c1)) = Rejected k"
      by (simp split: prod.splits)
    from Cons.IH [OF this] p False show ?thesis by simp
  qed
qed

text \<open>
  The loop reaches a user of the batch when no earlier post is rejected; a user the
  map has no row for is then posted the reminder.
\<close>

lemma process_user_rejected:
  "process_user f cm i x cs = (cs', evs, rej) \<Longrightarrow> rej
     \<Longrightarrow> post_rejects f i \<or> discord_webhook_url x = None"
  by (auto simp: process_user_def Let_def split: option.splits if_splits)

lemma process_user_no_row:
  assumes "cm (uid u) = None" and "1 \<le> push_goal u"
  shows "fst (snd (process_user f cm i u cs))
           = [Post (uid u) (discord_webhook_url u) Reminder]"
  using assms by (simp add: process_user_def goalMet_def)

lemma sweep_loop_reaches:
  assumes "sweep_loop f cm i (pre @ u # post) cs = (cs', tr, out)"
    and "\<forall>j<length pre. \<not> post_rejects f (i + j)"
    and "\<forall>x \<in> set pre. discord_webhook_url x \<noteq> None"
    and "cm (uid u) = None" and "1 \<le> push_goal u"
  shows "Post (uid u) (discord_webhook_url u) Reminder \<in> set tr"
  using assms(1,2,3)
proof (induction pre arbitrary: i cs cs' tr out)
  case Nil
  obtain c1 evs rej where p: "process_user f cm i u cs = (c1, evs, rej)"
    by (cases "process_user f cm i u cs") auto
  with process_user_no_row [where cm = cm and u = u and f = f and i = i and cs = cs,
      OF assms(4,5)]
  have evs: "evs = [Post (uid u) (discord_webhook_url u) Reminder]" by simp
  obtain c2 tr2 out2 where r: "sweep_loop f cm (Suc i) post c1 = (c2, tr2, out2)"
    by (cases "sweep_loop f cm (Suc i) post c1") auto
  from Nil.prems(1) p r have "tr = evs \<or> tr = evs @ tr2"
    by (auto split: if_splits)
  with evs show ?case by auto
next
  case (Cons x pre)
  obtain c1 evs rej where p: "process_user f cm i x cs = (c1, evs, rej)"
    by (cases "process_user f cm i x cs") auto
  from Cons.prems(2) have "\<not> post_rejects f i" by force
  moreover from Cons.prems(3) have "discord_webhook_url x \<noteq> None" by simp
  ultimately have nrej: "\<not> rej" using process_user_rejected [OF p] by auto
  obtain c2 tr2 out2 where
    r: "sweep_loop f cm (Suc i) (pre @ u # post) c1 = (c2, tr2, out2)"
    by (cases "sweep_loop f cm (Suc i) (pre @ u # post) c1") auto
  from Cons.prems(1) p r nrej have tr: "tr = evs @ tr2" by simp
  have "\<forall>j<length pre. \<not> post_rejects f (Suc i + j)"
  proof (intro allI impI)
    fix j assume "j < length pre"
    then have "Suc j < length (x # pre)" by simp
    with Cons.prems(2) have "\<not> post_rejects f (i + Suc j)" by blast
    then show "\<not> post_rejects f (Suc i + j)" by simp
  qed
  moreover from Cons.prems(3) have "\<forall>x \<in> set pre. discord_webhook_url x \<noteq> None" by simp
  ultimately have "Post (uid u) (discord_webhook_url u) Reminder \<in> set tr2"
    using Cons.IH [OF r] by blast
  with tr show ?case by simp
qed

lemma counterMap_no_row:
  assumes "rows_of u today cs = []"
  shows "counterMap (if q then [] else todays_counters today ids cs) u = None"
proof -
  from assms have "\<forall>c \<in> set cs. \<not> (user_id c = u \<and> date c = today)"
    by (simp add: rows_of_def filter_empty_conv)
  then show ?thesis
    by (auto simp: counterMap_None_iff todays_counters_def)
qed

lemma due_users_url: "x \<in> set (due_users now us) \<Longrightarrow> discord_webhook_url x \<noteq> None"
  by (simp add: due_users_def is_due_def)

text \<open>
  Every post of a sweep is for a user of its batch whose row, if the map has one, does not
  have the flag.
\<close>

lemma process_user_posts_pending:
  "process_user f cm i x cs = (cs', evs, rej) \<Longrightarrow> Post v url m \<in> set evs
     \<Longrightarrow> uid x = v \<and> \<not> (case cm v of None \<Rightarrow> False | Some c \<Rightarrow> is_job_done c)"
  by (auto simp: process_user_def Let_def split: option.splits if_splits)

lemma sweep_loop_posts_pending:
  assumes "sweep_loop f cm i us cs = (cs', tr, out)" and "Post v url m \<in> set tr"
  shows "(\<exists>x \<in> set us. uid x = v) \<and> \<not> (case cm v of None \<Rightarrow> False | Some c \<Rightarrow> is_job_done c)"
  using assms
proof (induction us arbitrary: i cs cs' tr out)
  case Nil
  then show ?case by simp
next
  case (Cons x us)
  obtain c1 evs rej where p: "process_user f cm i x cs = (c1, evs, rej)"
    by (cases "process_user f cm i x cs") auto
  obtain c2 tr2 out2 where r: "sweep_loop f cm (Suc i) us c1 = (c2, tr2, out2)"
    by (cases "sweep_loop f cm (Suc i) us c1") auto
  from Cons.prems(1) p r have "tr = evs \<or> tr = evs @ tr2"
    by (auto split: if_splits)
  with Cons.prems(2) have "Post v url m \<in> set evs \<or> Post v url m \<in> set tr2" by auto
  then show ?case
  proof
    assume "Post v url m \<in> set evs"
    from process_user_posts_pending [OF p this] show ?thesis by simp
  next
    assume "Post v url m \<in> set tr2"
    from Cons.IH [OF r this] show ?thesis by auto
  qed
qed

lemma checkPushGoals_posts:
  assumes "checkPushGoals f today now s = (s', tr, out)" and "Post v url m \<in> set tr"
  shows "\<exists>x \<in> set (due_users now (users s)). uid x = v"
proof -
  from assms(2) have "tr \<noteq> []" by auto
  from checkPushGoals_run [OF assms(1) this] obtain cs' cm where
    "sweep_loop f cm 0 (due_users now (users s)) (github_counter s) = (cs', tr, out)"
    by blast
  from sweep_loop_posts_pending [OF this assms(2)] show ?thesis by simp
qed

text \<open>
  With the counters query answered, a user whose flag is set for today gets no message;
  and a sweep changes nothing on a counter row but a flag from unset to set.
\<close>

lemma done_user_no_message:
  assumes query: "\<not> counters_query_fails f" and flag: "job_done_for u today s"
  shows "Post u url m \<notin> set (fst (snd (checkPushGoals f today now s)))"
proof
  assume post: "Post u url m \<in> set (fst (snd (checkPushGoals f today now s)))"
  obtain s' tr out where run: "checkPushGoals f today now s = (s', tr, out)"
    by (cases "checkPushGoals f today now s") auto
  with post have in_tr: "Post u url m \<in> set tr" by simp
  let ?batch = "due_users now (users s)"
  let ?counters = "todays_counters today (map uid ?batch) (github_counter s)"
  from in_tr have "tr \<noteq> []" by auto
  from checkPushGoals_run [OF run this] query obtain cs' where
    loop: "sweep_loop f (counterMap ?counters) 0 ?batch (github_counter s) = (cs', tr, out)"
    by auto
  from sweep_loop_posts_pending [OF loop in_tr] have
    batch: "\<exists>x \<in> set ?batch. uid x = u"
    and pending: "\<not> (case counterMap ?counters u of None \<Rightarrow> False | Some c \<Rightarrow> is_job_done c)"
    by auto
  from flag obtain c where c: "c \<in> set (rows_of u today (github_counter s))"
    by (cases "rows_of u today (github_counter s)") (auto simp: job_done_for_def)
  with batch have "c \<in> set ?counters" "user_id c = u"
    by (auto simp: rows_of_def todays_counters_def)
  then have "counterMap ?counters u \<noteq> None"
    by (auto simp: counterMap_None_iff)
  then obtain c' where c': "counterMap ?counters u = Some c'" by auto
  from counterMap_SomeD [OF this] have "c' \<in> set (rows_of u today (github_counter s))"
    by (auto simp: rows_of_def todays_counters_def)
  with flag have "is_job_done c'" by (simp add: job_done_for_def list_all_iff)
  with pending c' show False by simp
qed

lemma mark_done_latch:
  "list_all2 (\<lambda>c c'. c' = c \<or> (\<not> is_job_done c \<and> c' = c\<lparr>is_job_done := True\<rparr>))
     cs (mark_done K cs)"
  by (induction cs) (auto simp: mark_done_def)

lemma checkPushGoals_latch:
  assumes "checkPushGoals f today now s = (s', tr, out)"
  shows "list_all2 (\<lambda>c c'. c' = c \<or> (\<not> is_job_done c \<and> c' = c\<lparr>is_job_done := True\<rparr>))
           (github_counter s) (github_counter s')"
  using checkPushGoals_store [OF assms] mark_done_latch by simp

text \<open>
  When the store accepts the updates of a sweep: the update of the user's row of today
  stands immediately before each congratulation, the flag is set after the sweep whether
  or not the post was delivered, and no later sweep of that date, whatever fails in it,
  posts a congratulation for that user again. (The schema gives every user a positive goal
  and every user one row a day.)
\<close>

lemma accepted_write_stops_congratulations:
  assumes run: "checkPushGoals f today now s = (s', tr, out)"
    and goals: "push_goals_positive (users s)"
    and uniq: "one_row_per_day (github_counter s)"
    and ack: "\<forall>k. \<not> update_fails f k"
    and post: "Post u url Congratulations \<in> set tr"
  shows "(\<exists>c pre post. c \<in> set (github_counter s) \<and> user_id c = u \<and> date c = today \<and>
            tr = pre @ SetJobDone (cid c) # Post u url Congratulations # post)
       \<and> job_done_for u today s'
       \<and> (\<forall>f2 now2 s2 url2. push_goals_positive (users s2) \<and> job_done_for u today s2 \<longrightarrow>
             Post u url2 Congratulations \<notin> set (fst (snd (checkPushGoals f2 today now2 s2))))"
proof -
  from checkPushGoals_congrats [OF run goals post] obtain c pre post where
    c: "c \<in> set (github_counter s)" "user_id c = u" "date c = today"
       "tr = pre @ SetJobDone (cid c) # Post u url Congratulations # post"
    by blast
  from post have "tr \<noteq> []" by auto
  from checkPushGoals_run [OF run this] have
    s': "github_counter s' = mark_done (acknowledged f tr) (github_counter s)" by simp
  from c(4) ack have k: "cid c \<in> acknowledged f tr" by (simp add: acknowledged_def)
  from one_row_per_day_rows_of [OF uniq c(1)] c(2,3)
  have "rows_of u today (github_counter s) = [c]" by simp
  then have "rows_of u today (github_counter s') = mark_done (acknowledged f tr) [c]"
    using s' by (simp add: rows_of_mark_done)
  with k have "rows_of u today (github_counter s') = [c\<lparr>is_job_done := True\<rparr>]"
    by (simp add: mark_done_def)
  then have "job_done_for u today s'" by (simp add: job_done_for_def)
  moreover from c have "\<exists>c pre post. c \<in> set (github_counter s) \<and> user_id c = u \<and>
      date c = today \<and> tr = pre @ SetJobDone (cid c) # Post u url Congratulations # post"
    by blast
  ultimately show ?thesis using done_user_no_congrats by blast
qed

section \<open>Facts about the webhook handler\<close>

text \<open>The bytes of a string are the bytes of its parts.\<close>

lemma Buffer_from_append: "Buffer_from (a @ b) = Buffer_from a @ Buffer_from b"
  by (simp add: Buffer_from_def)

text \<open>Only a delivery answered with 200 has changed the store.\<close>

lemma gitwebhook_store:
  "gitwebhook hmac_hex parse f secret today req s = (s', r) \<Longrightarrow> r \<noteq> Status 200 \<Longrightarrow> s' = s"
  by (auto simp: gitwebhook_def upsert_counter_def split: sum.splits if_splits)

text \<open>A signed delivery from a known sender gets through the lookup.\<close>

lemma verify_and_find_known:
  assumes "signature_header r = Some (''sha256='' @ hmac_hex key (body r))"
    and "parse (body r) = Sender (Some g)"
    and "filter (\<lambda>x. github_id x = g) (users s) = [usr]"
    and "\<not> lookup_fails f"
  shows "verify_and_find hmac_hex parse f (Some key) r s = Inr usr"
  using assms
  by (simp add: verify_and_find_def timingSafeEqual_def single_user_def Let_def)

text \<open>The two steps of a delivery, run one after the other, are the handler.\<close>

lemma handler_steps_are_gitwebhook:
  "(case handler_step hmac_hex parse f secret today req Arrived s of
      (q, s1) \<Rightarrow> handler_step hmac_hex parse f secret today req q s1)
   = (case gitwebhook hmac_hex parse f secret today req s of (s', r) \<Rightarrow> (Replied r, s'))"
  by (cases "verify_and_find hmac_hex parse f secret req s")
     (simp_all add: handler_step_def gitwebhook_def split: prod.splits)

text \<open>
  The stored procedure leaves one row for the user and the date, one push higher, and
  leaves the flags of the rows that were there as they were.
\<close>

lemma rows_of_incremented:
  "rows_of u d (map (\<lambda>c. if user_id c = u \<and> date c = d
                            then c\<lparr>push_counter := push_counter c + 1\<rparr> else c) cs)
     = map (\<lambda>c. c\<lparr>push_counter := push_counter c + 1\<rparr>) (rows_of u d cs)"
  by (induction cs) (auto simp: rows_of_def)

lemma rows_of_increment_push_counter:
  assumes "length (rows_of u d cs) \<le> 1"
  shows "length (rows_of u d (increment_push_counter u d cs)) = 1 \<and>
         sum_list (map push_counter (rows_of u d (increment_push_counter u d cs)))
           = sum_list (map push_counter (rows_of u d cs)) + 1"
proof (cases "rows_of u d cs")
  case Nil
  then have "\<not> list_ex (\<lambda>c. user_id c = u \<and> date c = d) cs"
    by (auto simp: rows_of_def list_ex_iff filter_empty_conv)
  then have "increment_push_counter u d cs
      = cs @ [\<lparr>cid = next_id cs, user_id = u, date = d, push_counter = 1, is_job_done = False\<rparr>]"
    by (simp add: increment_push_counter_def)
  then have "rows_of u d (increment_push_counter u d cs)
      = rows_of u d cs @ [\<lparr>cid = next_id cs, user_id = u, date = d, push_counter = 1,
           is_job_done = False\<rparr>]"
    by (simp add: rows_of_def)
  with Nil show ?thesis by simp
next
  case (Cons c rest)
  with assms have one: "rows_of u d cs = [c]" by simp
  then have "c \<in> set (rows_of u d cs)" by simp
  then have "list_ex (\<lambda>c. user_id c = u \<and> date c = d) cs"
    by (auto simp: rows_of_def list_ex_iff)
  then have "rows_of u d (increment_push_counter u d cs)
      = map (\<lambda>c. c\<lparr>push_counter := push_counter c + 1\<rparr>) (rows_of u d cs)"
    by (simp add: increment_push_counter_def rows_of_incremented)
  with one show ?thesis by simp
qed

lemma increment_push_counter_flags:
  "map is_job_done (take (length cs) (increment_push_counter u d cs)) = map is_job_done cs"
  by (auto simp: increment_push_counter_def take_map [symmetric] intro!: nth_equalityI)

text \<open>
  Along any schedule of signed deliveries for one known user, the pushes recorded for the
  user today are as many as the deliveries that have replied.
\<close>

lemma count_after_update:
  "i < length ps \<Longrightarrow>
     length (filter P (ps[i := x])) + (if P (ps ! i) then 1 else 0)
       = length (filter P ps) + (if P x then 1 else 0)"
proof (induction ps arbitrary: i)
  case Nil
  then show ?case by simp
next
  case (Cons a ps)
  show ?case
  proof (cases i)
    case 0
    then show ?thesis by simp
  next
    case (Suc j)
    with Cons.prems have "j < length ps" by simp
    from Cons.IH [OF this] Suc show ?thesis by simp
  qed
qed

lemma interleave_invariant:
  assumes signed: "list_all (\<lambda>r. signature_header r
                      = Some (''sha256='' @ hmac_hex key (body r))) reqs"
    and sender: "list_all (\<lambda>r. parse (body r) = Sender (Some g)) reqs"
    and user: "filter (\<lambda>x. github_id x = g) (users s0) = [usr]"
    and ok: "\<not> lookup_fails f" "\<not> rpc_fails f"
    and run: "interleave hmac_hex parse f (Some key) today reqs sched (ps, s) = (ps', s')"
    and inv: "users s = users s0" "length ps = length reqs"
      "list_all (\<lambda>q. q = Arrived \<or> q = Found usr \<or> q = Replied (Status 200)) ps"
      "length (rows_of (uid usr) today (github_counter s)) \<le> 1"
      "push_count (uid usr) today s = int (length (filter has_replied ps))"
  shows "users s' = users s0 \<and> length ps' = length reqs
       \<and> list_all (\<lambda>q. q = Arrived \<or> q = Found usr \<or> q = Replied (Status 200)) ps'
       \<and> length (rows_of (uid usr) today (github_counter s')) \<le> 1
       \<and> push_count (uid usr) today s' = int (length (filter has_replied ps'))"
  using run inv
proof (induction sched arbitrary: ps s)
  case Nil
  then show ?case by simp
next
  case (Cons i sched)
  show ?case
  proof (cases "i < length ps \<and> i < length reqs")
    case False
    with Cons.prems(1) have
      "interleave hmac_hex parse f (Some key) today reqs sched (ps, s) = (ps', s')"
      by auto
    from Cons.IH [OF this Cons.prems(2-6)] show ?thesis .
  next
    case True
    then have i: "i < length ps" "i < length reqs" by auto
    obtain p1 s1 where
      step: "handler_step hmac_hex parse f (Some key) today (reqs ! i) (ps ! i) s = (p1, s1)"
      by (cases "handler_step hmac_hex parse f (Some key) today (reqs ! i) (ps ! i) s") auto
    with Cons.prems(1) True have
      rest: "interleave hmac_hex parse f (Some key) today reqs sched (ps[i := p1], s1) = (ps', s')"
      by simp
    from signed sender i(2) have
      req: "signature_header (reqs ! i) = Some (''sha256='' @ hmac_hex key (body (reqs ! i)))"
        "parse (body (reqs ! i)) = Sender (Some g)"
      by (auto simp: list_all_length)
    from Cons.prems(4) i(1) have
      phase: "ps ! i = Arrived \<or> ps ! i = Found usr \<or> ps ! i = Replied (Status 200)"
      by (auto simp: list_all_length)
    from user Cons.prems(2) have user': "filter (\<lambda>x. github_id x = g) (users s) = [usr]"
      by simp
    have "users s1 = users s0
        \<and> (p1 = Arrived \<or> p1 = Found usr \<or> p1 = Replied (Status 200))
        \<and> length (rows_of (uid usr) today (github_counter s1)) \<le> 1
        \<and> push_count (uid usr) today s1 = int (length (filter has_replied (ps[i := p1])))"
    proof -
      from phase consider (arrived) "ps ! i = Arrived" | (found) "ps ! i = Found usr"
        | (replied) "ps ! i = Replied (Status 200)" by blast
      then show ?thesis
      proof cases
        case arrived
        with step verify_and_find_known [where r = "reqs ! i" and hmac_hex = hmac_hex
            and parse = parse and key = key and g = g and s = s and usr = usr and f = f,
            OF req user' ok(1)]
        have "p1 = Found usr" "s1 = s" by (auto simp: handler_step_def)
        moreover from count_after_update [OF i(1), of has_replied "Found usr"] arrived
        have "length (filter has_replied (ps[i := Found usr])) = length (filter has_replied ps)"
          by (simp add: has_replied_def)
        ultimately show ?thesis using Cons.prems(2,5,6) by simp
      next
        case found
        with step ok(2) have p1: "p1 = Replied (Status 200)"
          and s1: "s1 = s\<lparr>github_counter :=
              increment_push_counter (uid usr) today (github_counter s)\<rparr>"
          by (auto simp: handler_step_def upsert_counter_def)
        from count_after_update [OF i(1), of has_replied "Replied (Status 200)"] found
        have "length (filter has_replied (ps[i := Replied (Status 200)]))
            = length (filter has_replied ps) + 1"
          by (simp add: has_replied_def)
        moreover from rows_of_increment_push_counter [OF Cons.prems(5)] s1
        have "length (rows_of (uid usr) today (github_counter s1)) \<le> 1"
          "push_count (uid usr) today s1 = push_count (uid usr) today s + 1"
          by (simp_all add: push_count_def)
        ultimately show ?thesis using p1 s1 Cons.prems(2,6) by simp
      next
        case replied
        with step have "p1 = ps ! i" "s1 = s" by (auto simp: handler_step_def)
        moreover have "ps[i := ps ! i] = ps" by simp
        ultimately show ?thesis using replied Cons.prems(2,5,6) by metis
      qed
    qed
    moreover from Cons.prems(3) have "length (ps[i := p1]) = length reqs" by simp
    moreover from Cons.prems(4) have
      "(p1 = Arrived \<or> p1 = Found usr \<or> p1 = Replied (Status 200)) \<Longrightarrow>
       list_all (\<lambda>q. q = Arrived \<or> q = Found usr \<or> q = Replied (Status 200)) (ps[i := p1])"
      by (auto simp: list_all_iff dest!: set_update_subset_insert [THEN subsetD])
    ultimately show ?thesis using Cons.IH [OF rest] by blast
  qed
qed

text \<open>The definitions a run on the example data unfolds.\<close>

lemmas sweep_eval = checkPushGoals_def due_users_def is_due_def counterMap_def
  todays_counters_def process_user_def goalMet_def set_job_done_def
  alice_def bob_def carol_def alice_row_def carol_row_def
  first_post_rejected_def counters_query_down_def update_refused_post_rejected_def
  no_faults_def

section \<open>The claims\<close>

text \<open>
  C1. The claim: when the delivery for one user of the batch fails, the sweep still
  processes every user after it. The code awaits the post with nothing around it: with
  Alice and Bob both due and Alice's post rejected, the sweep ends rejected at position 0
  having attempted Alice's reminder only; nothing is decided or sent for Bob, who gets a
  reminder in the same sweep when no post is rejected.
\<close>

theorem C1_rejected_post_ends_the_sweep:
  "checkPushGoals first_post_rejected ''2024-05-01'' ''10:00''
       \<lparr>users = [alice, bob], github_counter = []\<rparr>
     = (\<lparr>users = [alice, bob], github_counter = []\<rparr>,
        [Post 1 (Some ''https://discord.example/a'') Reminder], Rejected 0)
   \<and> checkPushGoals no_faults ''2024-05-01'' ''10:00''
       \<lparr>users = [alice, bob], github_counter = []\<rparr>
     = (\<lparr>users = [alice, bob], github_counter = []\<rparr>,
        [Post 1 (Some ''https://discord.example/a'') Reminder,
         Post 2 (Some ''https://discord.example/b'') Reminder], Completed)"
  by (simp add: checkPushGoals_def due_users_def is_due_def alice_def bob_def
      first_post_rejected_def no_faults_def counterMap_def todays_counters_def
      process_user_def goalMet_def)

text \<open>
  C2. The claim: in every sweep, for a user whose goal is met, the write that sets
  \<^verbatim>\<open>is_job_done = true\<close> happens before the congratulation is attempted, so a failed
  delivery never leads to a second congratulation on a later sweep. The sweep issues the
  update first, but it does not read what the update returns. Alice's row has reached the
  goal; the store answers the update with an error and the post is rejected. The sweep has
  attempted the congratulation with the flag still unset, and the sweep five minutes
  later, in which nothing fails, congratulates Alice a second time.
\<close>

theorem C2_unread_update_error_repeats_congratulation:
  "checkPushGoals update_refused_post_rejected ''2024-05-01'' ''10:00''
       \<lparr>users = [alice], github_counter = [alice_row False]\<rparr>
     = (\<lparr>users = [alice], github_counter = [alice_row False]\<rparr>,
        [SetJobDone 7, Post 1 (Some ''https://discord.example/a'') Congratulations],
        Rejected 0)
   \<and> checkPushGoals no_faults ''2024-05-01'' ''10:05''
       \<lparr>users = [alice], github_counter = [alice_row False]\<rparr>
     = (\<lparr>users = [alice], github_counter = [alice_row True]\<rparr>,
        [SetJobDone 7, Post 1 (Some ''https://discord.example/a'') Congratulations],
        Completed)"
  by (simp add: sweep_eval)

text \<open>
  C3. The claim: \<^verbatim>\<open>is_job_done\<close> only ever goes from false to true, and once it is true
  no later sweep of that date sends the user any message. The first half holds (a sweep
  only sets flags, the stored procedure leaves them alone), and so does the second while
  the counters query is answered. The sweep does not read the error of that query, though:
  when it fails the map of counters is empty, and Alice, whose flag is set, is sent a
  reminder; the same sweep with the query answered sends Alice nothing.
\<close>

theorem C3_reminder_after_flag_when_counters_query_fails:
  "job_done_for 1 ''2024-05-01'' \<lparr>users = [alice], github_counter = [alice_row True]\<rparr>
   \<and> checkPushGoals counters_query_down ''2024-05-01'' ''10:00''
        \<lparr>users = [alice], github_counter = [alice_row True]\<rparr>
      = (\<lparr>users = [alice], github_counter = [alice_row True]\<rparr>,
         [Post 1 (Some ''https://discord.example/a'') Reminder], Completed)
   \<and> checkPushGoals no_faults ''2024-05-01'' ''10:00''
        \<lparr>users = [alice], github_counter = [alice_row True]\<rparr>
      = (\<lparr>users = [alice], github_counter = [alice_row True]\<rparr>, [], Completed)"
  by (simp add: sweep_eval job_done_for_def rows_of_def)

text \<open>
  C4, as stated, fails on the other sweep. The callback given inline to \<^verbatim>\<open>cron.schedule\<close>
  walks over the counter rows of today, so a user with no row is never visited: Alice has a
  webhook URL, a time that has passed and no row, and the callback returns having sent
  nothing.
\<close>

theorem C4_callback_skips_user_without_row:
  "alice \<in> set (users \<lparr>users = [alice], github_counter = []\<rparr>)
   \<and> discord_webhook_url alice = Some ''https://discord.example/a''
   \<and> annoy_time alice = Some ''08:00'' \<and> str_le ''08:00'' ''08:05:00''
   \<and> rows_of (uid alice) ''2024-05-01'' [] = []
   \<and> cron_callback no_faults ''2024-05-01'' ''08:05:00'' \<lparr>users = [alice], github_counter = []\<rparr>
       = (\<lparr>users = [alice], github_counter = []\<rparr>, [], Returned)"
  by (simp add: cron_callback_def pending_items_def rows_of_def alice_def no_faults_def)

text \<open>
  C4, amended: in \<^verbatim>\<open>checkPushGoals\<close>, a user with a webhook URL, an \<^verbatim>\<open>annoy_time\<close>
  that has passed, a positive goal and no counter row for today is selected by every sweep
  whose users query succeeds, and is sent a reminder whenever no post to a user earlier
  in the batch is rejected (an absent row counts as no pushes and flag unset, also when the
  counters query fails). The sweep leaves the users and the absence of the row as they
  were, so the next sweep does the same.
\<close>

theorem C4_reminder_every_sweep_without_row:
  assumes query: "\<not> users_query_fails f"
    and user: "u \<in> set (users s)"
    and url: "discord_webhook_url u = Some w"
    and time: "annoy_time u = Some t" "str_le t now"
    and goal: "1 \<le> push_goal u"
    and norow: "rows_of (uid u) today (github_counter s) = []"
    and run: "checkPushGoals f today now s = (s', tr, out)"
  shows "u \<in> set (due_users now (users s))
       \<and> (\<forall>pre post. due_users now (users s) = pre @ u # post
              \<and> (\<forall>i<length pre. \<not> post_rejects f i)
            \<longrightarrow> Post (uid u) (Some w) Reminder \<in> set tr)
       \<and> users s' = users s
       \<and> rows_of (uid u) today (github_counter s') = []"
proof -
  let ?cm = "counterMap (if counters_query_fails f then []
               else todays_counters today (map uid (due_users now (users s))) (github_counter s))"
  have due: "u \<in> set (due_users now (users s))"
    using user url time by (simp add: due_users_def is_due_def)
  have none: "?cm (uid u) = None" using counterMap_no_row [OF norow] .
  obtain cs1 tr1 out1 where
    loop: "sweep_loop f ?cm 0 (due_users now (users s)) (github_counter s) = (cs1, tr1, out1)"
    by (cases "sweep_loop f ?cm 0 (due_users now (users s)) (github_counter s)") auto
  from due have "due_users now (users s) \<noteq> []" by auto
  with run query loop have tr: "tr = tr1"
    by (auto simp: checkPushGoals_def Let_def)
  have reach: "Post (uid u) (Some w) Reminder \<in> set tr"
    if split: "due_users now (users s) = pre @ u # post"
      and ok: "\<forall>i<length pre. \<not> post_rejects f i" for pre post
  proof -
    from split have "set pre \<subseteq> set (due_users now (users s))" by auto
    then have urls: "\<forall>x \<in> set pre. discord_webhook_url x \<noteq> None"
      using due_users_url by blast
    from loop split have "sweep_loop f ?cm 0 (pre @ u # post) (github_counter s) = (cs1, tr1, out1)"
      by simp
    from sweep_loop_reaches [OF this _ urls none goal] ok url tr show ?thesis by simp
  qed
  from checkPushGoals_store [OF run] have
    st: "users s' = users s" "github_counter s' = mark_done (acknowledged f tr) (github_counter s)"
    by auto
  from st(2) have "rows_of (uid u) today (github_counter s')
      = mark_done (acknowledged f tr) (rows_of (uid u) today (github_counter s))"
    by (simp add: rows_of_mark_done)
  with norow have "rows_of (uid u) today (github_counter s') = []"
    by (simp add: mark_done_def)
  with due reach st(1) show ?thesis by blast
qed

text \<open>C4, amended, on an instance: Alice at 08:05, with no row.\<close>

theorem C4_witness:
  "checkPushGoals no_faults ''2024-05-01'' ''08:05'' \<lparr>users = [alice], github_counter = []\<rparr>
     = (\<lparr>users = [alice], github_counter = []\<rparr>,
        [Post 1 (Some ''https://discord.example/a'') Reminder], Completed)
   \<and> alice \<in> set (due_users ''08:05'' [alice])
   \<and> Post (uid alice) (Some ''https://discord.example/a'') Reminder
       \<in> set [Post 1 (Some ''https://discord.example/a'') Reminder]
   \<and> rows_of (uid alice) ''2024-05-01'' [] = []"
proof -
  let ?s = "\<lparr>users = [alice], github_counter = []\<rparr>"
  let ?tr = "[Post 1 (Some ''https://discord.example/a'') Reminder]"
  have run: "checkPushGoals no_faults ''2024-05-01'' ''08:05'' ?s = (?s, ?tr, Completed)"
    by (simp add: sweep_eval)
  have query: "\<not> users_query_fails no_faults" by (simp add: no_faults_def)
  have user: "alice \<in> set (users ?s)" by simp
  have url: "discord_webhook_url alice = Some ''https://discord.example/a''"
    by (simp add: alice_def)
  have time: "annoy_time alice = Some ''08:00''" "str_le ''08:00'' ''08:05''"
    by (simp_all add: alice_def)
  have goal: "1 \<le> push_goal alice" by (simp add: alice_def)
  have norow: "rows_of (uid alice) ''2024-05-01'' (github_counter ?s) = []"
    by (simp add: rows_of_def)
  have batch: "due_users ''08:05'' (users ?s) = [] @ alice # []
      \<and> (\<forall>i<length ([]::user list). \<not> post_rejects no_faults i)"
    by (simp add: due_users_def is_due_def alice_def)
  from C4_reminder_every_sweep_without_row [OF query user url time goal norow run] batch
  have "alice \<in> set (due_users ''08:05'' (users ?s))"
    and "Post (uid alice) (Some ''https://discord.example/a'') Reminder \<in> set ?tr"
    and "rows_of (uid alice) ''2024-05-01'' (github_counter ?s) = []"
    by blast+
  with run show ?thesis by simp
qed

text \<open>
  C5, as stated, fails on the other sweep. The callback given inline to \<^verbatim>\<open>cron.schedule\<close>
  selects by counter row and compares \<^verbatim>\<open>annoy_time\<close> only before a reminder: Carol has
  no \<^verbatim>\<open>annoy_time\<close> and a goal that is reached, and the callback posts the congratulation.
\<close>

theorem C5_callback_congratulates_without_annoy_time:
  "annoy_time carol = None
   \<and> cron_callback no_faults ''2024-05-01'' ''10:00:00''
        \<lparr>users = [carol], github_counter = [carol_row]\<rparr>
      = (\<lparr>users = [carol], github_counter = [carol_row\<lparr>is_job_done := True\<rparr>]\<rparr>,
         [SetJobDone 9, Post 3 (Some ''https://discord.example/c'') Congratulations],
         Completed)"
  by (simp add: cron_callback_def pending_items_def process_item_def set_job_done_def
      carol_def carol_row_def no_faults_def)

text \<open>
  C5, amended: in \<^verbatim>\<open>checkPushGoals\<close>, a user whose \<^verbatim>\<open>annoy_time\<close> is null is never in
  the batch and no message of any kind is posted for that user, whatever the counters, the date,
  the time and the failures of the sweep. (User ids are the primary key.)
\<close>

theorem C5_null_annoy_time_never_selected:
  assumes user: "u \<in> set (users s)"
    and null: "annoy_time u = None"
    and key: "distinct (map uid (users s))"
  shows "u \<notin> set (due_users now (users s))
       \<and> (\<forall>url m. Post (uid u) url m \<notin> set (fst (snd (checkPushGoals f today now s))))"
proof -
  have notdue: "u \<notin> set (due_users now (users s))"
    using null by (simp add: due_users_def is_due_def)
  have "Post (uid u) url m \<notin> set (fst (snd (checkPushGoals f today now s)))" for url m
  proof
    assume post: "Post (uid u) url m \<in> set (fst (snd (checkPushGoals f today now s)))"
    obtain s' tr out where run: "checkPushGoals f today now s = (s', tr, out)"
      by (cases "checkPushGoals f today now s") auto
    with post have "Post (uid u) url m \<in> set tr" by simp
    from checkPushGoals_posts [OF run this] obtain x where
      x: "x \<in> set (due_users now (users s))" "uid x = uid u" by blast
    then have "x \<in> set (users s)" by (simp add: due_users_def)
    with key user x(2) have "x = u" by (meson distinct_map inj_onD)
    with x(1) notdue show False by simp
  qed
  with notdue show ?thesis by blast
qed

text \<open>
  C5, amended, on an instance: Carol, with the goal reached, next to Alice, who is due.
\<close>

theorem C5_witness:
  "carol \<notin> set (due_users ''10:00'' [carol, alice])
   \<and> checkPushGoals no_faults ''2024-05-01'' ''10:00''
        \<lparr>users = [carol, alice], github_counter = [carol_row]\<rparr>
      = (\<lparr>users = [carol, alice], github_counter = [carol_row]\<rparr>,
         [Post 1 (Some ''https://discord.example/a'') Reminder], Completed)
   \<and> Post 3 (Some ''https://discord.example/c'') Congratulations
        \<notin> set (fst (snd (checkPushGoals no_faults ''2024-05-01'' ''10:00''
             \<lparr>users = [carol, alice], github_counter = [carol_row]\<rparr>)))"
proof -
  let ?s = "\<lparr>users = [carol, alice], github_counter = [carol_row]\<rparr>"
  have user: "carol \<in> set (users ?s)" by simp
  have null: "annoy_time carol = None" by (simp add: carol_def)
  have key: "distinct (map uid (users ?s))" by (simp add: carol_def alice_def)
  have run: "checkPushGoals no_faults ''2024-05-01'' ''10:00'' ?s
      = (?s, [Post 1 (Some ''https://discord.example/a'') Reminder], Completed)"
    by (simp add: sweep_eval)
  from C5_null_annoy_time_never_selected [OF user null key, of "''10:00''" no_faults "''2024-05-01''"]
  have "carol \<notin> set (due_users ''10:00'' (users ?s))"
    and "Post (uid carol) (Some ''https://discord.example/c'') Congratulations
        \<notin> set (fst (snd (checkPushGoals no_faults ''2024-05-01'' ''10:00'' ?s)))"
    by blast+
  moreover have "uid carol = 3" by (simp add: carol_def)
  ultimately show ?thesis using run by simp
qed

text \<open>
  C6. The claim: a request whose signature does not match the digest of its body is
  answered 401 and changes nothing in the store. The store is indeed untouched, but a
  claimed signature of another length than ours is not answered 401: whatever the digest
  function, the secret and the body, the signature that is ours with one more character
  makes \<^verbatim>\<open>crypto.timingSafeEqual\<close> throw, and the handler with it.
\<close>

theorem C6_longer_signature_throws:
  "gitwebhook hmac_hex parse f (Some key) today
     \<lparr>signature_header = Some (''sha256='' @ hmac_hex key b @ ''0''), body = b\<rparr> s
   = (s, Threw RangeError)"
proof -
  have "length (Buffer_from (''sha256='' @ hmac_hex key b @ ''0''))
      = Suc (length (Buffer_from (''sha256='' @ hmac_hex key b)))"
    by (simp add: Buffer_from_def utf8_char_def)
  then have "timingSafeEqual (Buffer_from (''sha256='' @ hmac_hex key b))
      (Buffer_from (''sha256='' @ hmac_hex key b @ ''0'')) = Inl RangeError"
    by (simp add: timingSafeEqual_def)
  then show ?thesis
    by (simp add: gitwebhook_def verify_and_find_def Let_def)
qed

text \<open>
  C7. A delivery whose signature is the digest of its body, and whose sender id is the
  \<^verbatim>\<open>github_id\<close> of no stored user, is answered 404 and the store is as it was: no
  counter row is created or incremented and no user row is written. This holds whatever
  the lookup itself does (an error of the lookup is answered 404 as well).
\<close>

theorem C7_unknown_sender_not_found:
  assumes signed: "signature_header req = Some (''sha256='' @ hmac_hex key (body req))"
    and sender: "parse (body req) = Sender g"
    and unknown: "list_all (\<lambda>u. g \<noteq> Some (github_id u)) (users s)"
  shows "gitwebhook hmac_hex parse f (Some key) today req s = (s, Status 404)"
proof -
  have "single_user f g (users s) = None"
  proof (cases g)
    case None
    then show ?thesis by (simp add: single_user_def)
  next
    case (Some n)
    with unknown have "filter (\<lambda>u. github_id u = n) (users s) = []"
      by (auto simp: list_all_iff filter_empty_conv)
    with Some show ?thesis by (simp add: single_user_def)
  qed
  with signed sender show ?thesis
    by (simp add: gitwebhook_def verify_and_find_def timingSafeEqual_def Let_def)
qed

text \<open>C7 on an instance: a signed delivery from sender 999, unknown to Alice and Bob.\<close>

theorem C7_witness:
  "signature_header demo_request = Some (''sha256='' @ demo_hmac ''secret'' (body demo_request))
   \<and> demo_parse (body demo_request) = Sender (Some 999)
   \<and> gitwebhook demo_hmac demo_parse no_faults (Some ''secret'') ''2024-05-01'' demo_request
        \<lparr>users = [alice, bob], github_counter = []\<rparr>
      = (\<lparr>users = [alice, bob], github_counter = []\<rparr>, Status 404)"
proof -
  let ?s = "\<lparr>users = [alice, bob], github_counter = []\<rparr>"
  have signed: "signature_header demo_request
      = Some (''sha256='' @ demo_hmac ''secret'' (body demo_request))"
    by (simp add: demo_request_def demo_hmac_def)
  have sender: "demo_parse (body demo_request) = Sender (Some 999)"
    by (simp add: demo_request_def demo_parse_def)
  have unknown: "list_all (\<lambda>u. Some 999 \<noteq> Some (github_id u)) (users ?s)"
    by (simp add: alice_def bob_def)
  from C7_unknown_sender_not_found [where hmac_hex = demo_hmac and parse = demo_parse
      and req = demo_request and key = "''secret''" and s = ?s and g = "Some 999",
      OF signed sender unknown] signed sender
  show ?thesis by blast
qed

text \<open>
  C8. For every number of signed deliveries for one stored user, with no counter row for
  the user today at the start and the store answering every call, and for every schedule
  that interleaves the store accesses of the deliveries and lets each of them reply: every
  delivery is answered 200, the user has at most one row for today, and the
  \<^verbatim>\<open>push_count\<close> recorded for the user today is the number of deliveries. The increment-or-create is the stored procedure, one atomic store
  operation, which is modelled from the spec.
\<close>

theorem C8_concurrent_deliveries_all_counted:
  assumes signed: "list_all (\<lambda>r. signature_header r
                      = Some (''sha256='' @ hmac_hex key (body r))) reqs"
    and sender: "list_all (\<lambda>r. parse (body r) = Sender (Some g)) reqs"
    and user: "filter (\<lambda>x. github_id x = g) (users s) = [usr]"
    and ok: "\<not> lookup_fails f" "\<not> rpc_fails f"
    and norow: "rows_of (uid usr) today (github_counter s) = []"
    and run: "interleave hmac_hex parse f (Some key) today reqs sched
                (replicate (length reqs) Arrived, s) = (ps, s')"
    and finished: "list_all has_replied ps"
  shows "push_count (uid usr) today s' = int (length reqs)
       \<and> length (rows_of (uid usr) today (github_counter s')) \<le> 1
       \<and> list_all (\<lambda>p. p = Replied (Status 200)) ps"
proof -
  let ?ps0 = "replicate (length reqs) Arrived"
  have "filter has_replied ?ps0 = []"
    by (simp add: has_replied_def)
  with norow have start: "users s = users s" "length ?ps0 = length reqs"
      "list_all (\<lambda>q. q = Arrived \<or> q = Found usr \<or> q = Replied (Status 200)) ?ps0"
      "length (rows_of (uid usr) today (github_counter s)) \<le> 1"
      "push_count (uid usr) today s = int (length (filter has_replied ?ps0))"
    by (simp_all add: push_count_def list_all_iff)
  from interleave_invariant [OF signed sender user ok run start] have
    fin: "length ps = length reqs"
      "list_all (\<lambda>q. q = Arrived \<or> q = Found usr \<or> q = Replied (Status 200)) ps"
      "length (rows_of (uid usr) today (github_counter s')) \<le> 1"
      "push_count (uid usr) today s' = int (length (filter has_replied ps))"
    by auto
  from finished have "filter has_replied ps = ps" by (simp add: list_all_iff)
  moreover have "p = Replied (Status 200)" if "p \<in> set ps" for p
  proof -
    from that finished fin(2) have "has_replied p"
      "p = Arrived \<or> p = Found usr \<or> p = Replied (Status 200)"
      by (auto simp: list_all_iff)
    then show ?thesis by (auto simp: has_replied_def)
  qed
  then have "list_all (\<lambda>p. p = Replied (Status 200)) ps"
    by (simp add: list_all_iff)
  ultimately show ?thesis using fin by simp
qed

text \<open>
  C8 on an instance: two deliveries for Dave, both looking the user up before either calls
  the stored procedure.
\<close>

theorem C8_witness:
  "interleave demo_hmac demo_parse no_faults (Some ''secret'') ''2024-05-01''
       [demo_request, demo_request] [0, 1, 1, 0]
       ([Arrived, Arrived], \<lparr>users = [alice, dave], github_counter = []\<rparr>)
     = ([Replied (Status 200), Replied (Status 200)],
        \<lparr>users = [alice, dave],
         github_counter = [\<lparr>cid = 1, user_id = 4, date = ''2024-05-01'', push_counter = 2,
            is_job_done = False\<rparr>]\<rparr>)
   \<and> push_count (uid dave) ''2024-05-01''
        \<lparr>users = [alice, dave],
         github_counter = [\<lparr>cid = 1, user_id = 4, date = ''2024-05-01'', push_counter = 2,
            is_job_done = False\<rparr>]\<rparr> = 2"
proof -
  let ?s = "\<lparr>users = [alice, dave], github_counter = []\<rparr>"
  let ?s' = "\<lparr>users = [alice, dave],
         github_counter = [\<lparr>cid = 1, user_id = 4, date = ''2024-05-01'', push_counter = 2,
            is_job_done = False\<rparr>]\<rparr>"
  let ?reqs = "[demo_request, demo_request]"
  have signed: "list_all (\<lambda>r. signature_header r
      = Some (''sha256='' @ demo_hmac ''secret'' (body r))) ?reqs"
    by (simp add: demo_request_def demo_hmac_def)
  have sender: "list_all (\<lambda>r. demo_parse (body r) = Sender (Some 999)) ?reqs"
    by (simp add: demo_request_def demo_parse_def)
  have user: "filter (\<lambda>x. github_id x = 999) (users ?s) = [dave]"
    by (simp add: alice_def dave_def)
  have ok: "\<not> lookup_fails no_faults" "\<not> rpc_fails no_faults"
    by (simp_all add: no_faults_def)
  have norow: "rows_of (uid dave) ''2024-05-01'' (github_counter ?s) = []"
    by (simp add: rows_of_def)
  have run: "interleave demo_hmac demo_parse no_faults (Some ''secret'') ''2024-05-01''
       ?reqs [0, 1, 1, 0] (replicate (length ?reqs) Arrived, ?s)
     = ([Replied (Status 200), Replied (Status 200)], ?s')"
    by (simp add: handler_step_def verify_and_find_def upsert_counter_def
        timingSafeEqual_def single_user_def increment_push_counter_def next_id_def
        demo_request_def demo_hmac_def demo_parse_def alice_def dave_def no_faults_def
        Let_def numeral_2_eq_2)
  have finished: "list_all has_replied [Replied (Status 200), Replied (Status 200)]"
    by (simp add: has_replied_def)
  from C8_concurrent_deliveries_all_counted [OF signed sender user ok norow run finished]
  have "push_count (uid dave) ''2024-05-01'' ?s' = 2" by simp
  with run show ?thesis by (simp add: numeral_2_eq_2)
qed

text \<open>
  C9. The claim: every error is caught inside the operation and turned into a response
  code or a log entry, for every request shape. The handler has no handler of its own
  around its body: a request without the \<^verbatim>\<open>X-Hub-Signature-256\<close> header makes
  \<^verbatim>\<open>Buffer.from\<close> throw, for every body, secret and store, and no status is sent. The sweep
  likewise ends rejected when a post is.
\<close>

theorem C9_missing_signature_header_throws:
  "gitwebhook hmac_hex parse f secret today \<lparr>signature_header = None, body = b\<rparr> s
     = (s, Threw TypeError)
   \<and> snd (snd (checkPushGoals first_post_rejected ''2024-05-01'' ''10:00''
        \<lparr>users = [alice], github_counter = []\<rparr>)) = Rejected 0"
  by (simp add: gitwebhook_def verify_and_find_def sweep_eval split: option.splits)



end
